theory Spec2Isabelle
  imports Main "HOL-Library.Sublist"
begin

text \<open>
  A launcher extension: the keyword handler searches the home directory for
  directories whose name contains the query (\<open>find_matching_dirs\<close>) and offers them, with
  an item that creates a new one; the item handler creates the directory if asked to,
  substitutes the workspace path into a command template and starts a terminal on it.

  The program is embedded together with the library calls it is built on: \<open>os.walk\<close>
  (top-down, no \<open>onerror\<close> callback, symbolic links not followed), \<open>pathlib\<close> paths
  on POSIX, \<open>Path.mkdir\<close>, \<open>str.replace\<close>. The file system, the log and the started
  processes are explicit: each function takes the world it runs in and returns the one
  it leaves.
\<close>

section \<open>Strings\<close>

text \<open>
  Python strings are modelled as \<open>string\<close> (lists of 8-bit characters).
  \<open>str.lower()\<close> is modelled on the ASCII letters; every other character is left as it is.
\<close>

definition lower_char :: "char \<Rightarrow> char" where
  "lower_char c =
     (let n = (of_char c :: nat) in if 65 \<le> n \<and> n \<le> 90 then char_of (n + 32) else c)"

definition lower :: "string \<Rightarrow> string" where
  "lower s = map lower_char s"

text \<open>\<open>q in s\<close> on strings: \<open>q\<close> occurs in \<open>s\<close> as a contiguous substring.\<close>

fun str_in :: "string \<Rightarrow> string \<Rightarrow> bool" where
  "str_in q [] = (q = [])"
| "str_in q (c # cs) = (prefix q (c # cs) \<or> str_in q cs)"

text \<open>\<open>d.startswith('.')\<close>\<close>

definition startswith_dot :: "string \<Rightarrow> bool" where
  "startswith_dot d = (case d of [] \<Rightarrow> False | c # _ \<Rightarrow> c = CHR ''.'')"

section \<open>Paths\<close>

text \<open>
  A \<open>pathlib.Path\<close> on POSIX: the root (\<open>''''\<close> for a relative path, \<open>''/''\<close>, or
  \<open>''//''\<close> when the text starts with exactly two slashes) and the list of components.
\<close>

record path =
  anchor :: string
  parts :: "string list"

text \<open>\<open>root_path / dir_name\<close> for a directory entry name, which is a single component.\<close>

definition child :: "path \<Rightarrow> string \<Rightarrow> path" where
  "child p d = p\<lparr>parts := parts p @ [d]\<rparr>"

text \<open>The path reached from \<open>p\<close> by a list of entry names, and the base name of a path.\<close>

definition below :: "path \<Rightarrow> string list \<Rightarrow> path" where
  "below p rel = p\<lparr>parts := parts p @ rel\<rparr>"

definition basename :: "path \<Rightarrow> string" where
  "basename p = (case rev (parts p) of [] \<Rightarrow> [] | d # _ \<Rightarrow> d)"

section \<open>The directory tree that \<open>os.walk\<close> observes\<close>

text \<open>
  A snapshot of the tree under the home directory, as the scan sees each entry:
  \<^item> \<open>File\<close>: an entry for which \<open>is_dir()\<close> is false;
  \<^item> \<open>Dir es\<close>: a directory whose listing succeeds, with its entries in listing order;
  \<^item> \<open>Denied\<close>: a directory whose listing raises \<open>OSError\<close> (permission denied, I/O error);
  \<^item> \<open>Link\<close>: a symbolic link to a directory (\<open>is_dir()\<close> is true, \<open>islink\<close> is true);
  \<^item> \<open>Crash msg\<close>: a directory at which the walk raises an exception that is not an
    \<open>OSError\<close> (recursion depth exceeded, out of memory), with its message.
\<close>

datatype node =
    File
  | Dir "(string \<times> node) list"
  | Denied
  | Link
  | Crash string

fun is_dir :: "node \<Rightarrow> bool" where
  "is_dir File = False"
| "is_dir _ = True"

fun is_link :: "node \<Rightarrow> bool" where
  "is_link Link = True"
| "is_link _ = False"

text \<open>The \<open>dirs\<close> list that \<open>os.walk\<close> yields for a listing.\<close>

definition dir_names :: "(string \<times> node) list \<Rightarrow> string list" where
  "dir_names es = map fst (filter (\<lambda>e. is_dir (snd e)) es)"

section \<open>\<open>find_matching_dirs\<close>\<close>

text \<open>
  Control flow of a loop body: the loop goes on, the function has returned, or an
  exception is propagating.
\<close>

datatype 'a flow = Next 'a | Returned 'a | Raised string 'a

text \<open>
  The state of the search: \<open>matches\<close> is the list of the source; \<open>visited\<close> records the
  \<open>root\<close> of every tuple the walk has yielded (it is not read by the program).
\<close>

record search =
  matches :: "path list"
  visited :: "path list"

text \<open>The inner loop, lines 36 to 43: \<open>for dir_name in dirs\<close>.\<close>

fun match_dirs :: "string \<Rightarrow> path \<Rightarrow> string list \<Rightarrow> search \<Rightarrow> search flow" where
  "match_dirs q root_path [] s = Next s"
| "match_dirs q root_path (dir_name # dirs) s =
     (if str_in q (lower dir_name) then
        (let s' = s\<lparr>matches := matches s @ [child root_path dir_name]\<rparr>
         in if length (matches s') \<ge> 5 then Returned s' else match_dirs q root_path dirs s')
      else match_dirs q root_path dirs s)"

text \<open>
  The outer loop, lines 31 to 43, together with the top-down \<open>os.walk\<close> that feeds it
  (\<open>onerror=None\<close>, \<open>followlinks=False\<close>): a directory that cannot be listed yields
  nothing and the error is dropped by the walk; a listed directory yields its tuple, the
  body prunes \<open>dirs\<close> in place and matches, and the walk then enters each remaining
  directory that is not a symbolic link, in order. Names are unique within a directory,
  so entering the entries kept in \<open>dirs\<close> is entering them by name. The node given for
  the top stands for what the home path resolves to; a top that is not a listable
  directory yields nothing. An exception of the walk that is not an \<open>OSError\<close>
  propagates into the loop.
\<close>

fun walk :: "string \<Rightarrow> path \<Rightarrow> node \<Rightarrow> search \<Rightarrow> search flow"
  and descend :: "string \<Rightarrow> path \<Rightarrow> (string \<times> node) list \<Rightarrow> search \<Rightarrow> search flow" where
  "walk q root_path (Dir es) s =
     (let dirs = filter (\<lambda>d. \<not> startswith_dot d) (dir_names es)
      in case match_dirs q root_path dirs (s\<lparr>visited := visited s @ [root_path]\<rparr>) of
           Next s' \<Rightarrow> descend q root_path es s'
         | r \<Rightarrow> r)"
| "walk q root_path (Crash msg) s = Raised msg s"
| "walk q root_path File s = Next s"
| "walk q root_path Denied s = Next s"
| "walk q root_path Link s = Next s"
| "descend q root_path [] s = Next s"
| "descend q root_path ((d, n) # es) s =
     (if is_dir n \<and> \<not> startswith_dot d \<and> \<not> is_link n then
        (case walk q (child root_path d) n s of
           Next s' \<Rightarrow> descend q root_path es s'
         | r \<Rightarrow> r)
      else descend q root_path es s)"

text \<open>
  What the function sees of the world: the home directory (\<open>Path.home()\<close>), the tree
  under it, and the log written by \<open>logger.error\<close>.
\<close>

record env =
  home :: path
  log :: "string list"

record world = env +
  tree :: node

text \<open>The body of the \<open>try\<close> block, started with \<open>matches = []\<close>.\<close>

definition search_home :: "string \<Rightarrow> world \<Rightarrow> search flow" where
  "search_home query w = walk (lower query) (home w) (tree w) \<lparr>matches = [], visited = []\<rparr>"

text \<open>
  \<open>find_matching_dirs\<close>: the early \<open>return matches\<close> of line 43, the handler of lines 44
  and 45, which logs and falls through, and the final \<open>return matches\<close> of line 47.
\<close>

definition find_matching_dirs :: "string \<Rightarrow> world \<Rightarrow> path list \<times> world" where
  "find_matching_dirs query w =
     (case search_home query w of
        Returned s \<Rightarrow> (matches s, w)
      | Raised e s \<Rightarrow> (matches s, w\<lparr>log := log w @ [''Error searching directories: '' @ e]\<rparr>)
      | Next s \<Rightarrow> (matches s, w))"

section \<open>The traversal as a sequence of events\<close>

text \<open>
  The unbounded traversal, written out as the sequence of what happens: a directory is
  listed (\<open>Visit\<close>), a name is kept in the pruned \<open>dirs\<close> of a listed directory
  (\<open>Found\<close>), the walk raises (\<open>Fault\<close>). The sequence does not depend on the query and
  does not stop at a fault or at a limit; \<open>exec\<close> does.
\<close>

datatype event = Visit path | Found path | Fault string

fun discovery :: "path \<Rightarrow> node \<Rightarrow> event list"
  and discovery_list :: "path \<Rightarrow> (string \<times> node) list \<Rightarrow> event list" where
  "discovery p (Dir es) =
     Visit p # map (\<lambda>d. Found (child p d)) (filter (\<lambda>d. \<not> startswith_dot d) (dir_names es))
       @ discovery_list p es"
| "discovery p (Crash msg) = [Fault msg]"
| "discovery p File = []"
| "discovery p Denied = []"
| "discovery p Link = []"
| "discovery_list p [] = []"
| "discovery_list p ((d, n) # es) =
     (if is_dir n \<and> \<not> startswith_dot d \<and> \<not> is_link n then discovery (child p d) n else [])
       @ discovery_list p es"

text \<open>The matching predicate on a path: the query occurs in the lowercased base name.\<close>

definition hit :: "string \<Rightarrow> path \<Rightarrow> bool" where
  "hit q x = str_in q (lower (basename x))"

fun exec :: "string \<Rightarrow> event list \<Rightarrow> search \<Rightarrow> search flow" where
  "exec q [] s = Next s"
| "exec q (Visit p # evs) s = exec q evs (s\<lparr>visited := visited s @ [p]\<rparr>)"
| "exec q (Found x # evs) s =
     (if hit q x then
        (let s' = s\<lparr>matches := matches s @ [x]\<rparr>
         in if length (matches s') \<ge> 5 then Returned s' else exec q evs s')
      else exec q evs s)"
| "exec q (Fault msg # evs) s = Raised msg s"

fun is_fault :: "event \<Rightarrow> bool" where
  "is_fault (Fault _) = True"
| "is_fault _ = False"

text \<open>The paths found, and the directories listed, in a sequence of events.\<close>

fun founds :: "event list \<Rightarrow> path list" where
  "founds [] = []"
| "founds (Found x # evs) = x # founds evs"
| "founds (_ # evs) = founds evs"

fun visits :: "event list \<Rightarrow> path list" where
  "visits [] = []"
| "visits (Visit p # evs) = p # visits evs"
| "visits (_ # evs) = visits evs"

text \<open>
  The directories discovered under \<open>p\<close>, in traversal order, up to the point where the
  walk raises (if it does).
\<close>

definition discovered :: "path \<Rightarrow> node \<Rightarrow> path list" where
  "discovered p n = founds (takeWhile (\<lambda>e. \<not> is_fault e) (discovery p n))"



text \<open>The state carried by a control-flow outcome.\<close>

fun state_of :: "'a flow \<Rightarrow> 'a" where
  "state_of (Next s) = s"
| "state_of (Returned s) = s"
| "state_of (Raised msg s) = s"

section \<open>More of \<open>pathlib\<close>: parsing, joining, printing\<close>

text \<open>\<open>s.split(c)\<close> for a one-character separator.\<close>

fun split_on :: "char \<Rightarrow> string \<Rightarrow> string list" where
  "split_on c [] = [[]]"
| "split_on c (x # xs) =
     (if x = c then [] # split_on c xs
      else (case split_on c xs of [] \<Rightarrow> [[x]] | w # ws \<Rightarrow> (x # w) # ws))"

text \<open>\<open>sep.join(xs)\<close>\<close>

fun join_with :: "string \<Rightarrow> string list \<Rightarrow> string" where
  "join_with sep [] = []"
| "join_with sep [x] = x"
| "join_with sep (x # y # ys) = x @ sep @ join_with sep (y # ys)"

text \<open>
  \<open>Path(s)\<close>: empty components and \<open>.\<close> components are dropped, \<open>..\<close> is kept; exactly
  two leading slashes are kept as the root \<open>//\<close>, any other number collapses to \<open>/\<close>.
\<close>

definition Path :: "string \<Rightarrow> path" where
  "Path s =
     \<lparr>anchor = (if prefix ''//'' s \<and> \<not> prefix ''///'' s then ''//''
                else if prefix ''/'' s then ''/'' else []),
      parts = filter (\<lambda>x. x \<noteq> [] \<and> x \<noteq> ''.'') (split_on CHR ''/'' s)\<rparr>"

text \<open>\<open>str(p)\<close>\<close>

definition str_path :: "path \<Rightarrow> string" where
  "str_path p =
     (if anchor p = [] \<and> parts p = [] then ''.'' else anchor p @ join_with ''/'' (parts p))"

text \<open>\<open>a / b\<close>: an absolute right operand replaces the left one.\<close>

definition joinpath :: "path \<Rightarrow> path \<Rightarrow> path" where
  "joinpath a b =
     (if anchor b \<noteq> [] then b else \<lparr>anchor = anchor a, parts = parts a @ parts b\<rparr>)"

text \<open>\<open>p.parent\<close>\<close>

definition parent :: "path \<Rightarrow> path" where
  "parent p = p\<lparr>parts := butlast (parts p)\<rparr>"

section \<open>\<open>str.replace\<close>\<close>

text \<open>
  \<open>s.replace(old, new)\<close>: the occurrences of \<open>old\<close> are found from left to right, without
  overlap. For an empty \<open>old\<close>, Python puts \<open>new\<close> before every character and at the end.
\<close>

function replace_from :: "string \<Rightarrow> string \<Rightarrow> string \<Rightarrow> string" where
  "replace_from old new [] = []"
| "replace_from old new (c # cs) =
     (if old \<noteq> [] \<and> prefix old (c # cs)
      then new @ replace_from old new (drop (length old) (c # cs))
      else c # replace_from old new cs)"
  by pat_completeness auto
termination
  by (relation "measure (\<lambda>(old, new, s). length s)") (auto simp: neq_Nil_conv)

definition replace :: "string \<Rightarrow> string \<Rightarrow> string \<Rightarrow> string" where
  "replace old new s =
     (if old = [] then new @ concat (map (\<lambda>c. c # new) s) else replace_from old new s)"

section \<open>The keyword query handler\<close>

text \<open>The payload of an \<open>ExtensionCustomAction\<close>, and the items of the result list.\<close>

record payload =
  action :: string
  path :: string

datatype on_enter_action =
    HideWindow
  | ExtensionCustomAction payload

record item =
  icon :: string
  name :: string
  description :: string
  on_enter :: on_enter_action

datatype result = RenderResultListAction "item list" | HideWindowAction

definition create_item :: "string \<Rightarrow> item" where
  "create_item query =
     \<lparr>icon = ''images/icon.png'',
      name = ''Create and use: '' @ query,
      description = ''Create this directory and use it as workspace'',
      on_enter = ExtensionCustomAction \<lparr>action = ''create'', path = query\<rparr>\<rparr>"

definition use_item :: "path \<Rightarrow> item" where
  "use_item dir_path =
     \<lparr>icon = ''images/icon.png'',
      name = str_path dir_path,
      description = ''Use this directory as workspace'',
      on_enter = ExtensionCustomAction \<lparr>action = ''use'', path = str_path dir_path\<rparr>\<rparr>"

definition prompt_item :: item where
  "prompt_item =
     \<lparr>icon = ''images/icon.png'',
      name = ''Enter directory path'',
      description = ''Start typing to search or create a directory'',
      on_enter = HideWindow\<rparr>"

text \<open>
  \<open>KeywordQueryEventListener.on_event\<close>; the argument of the event is \<open>None\<close> or a string,
  and \<open>event.get_argument() or ""\<close> turns \<open>None\<close> into the empty string.
\<close>

definition keyword_on_event :: "string option \<Rightarrow> world \<Rightarrow> result \<times> world" where
  "keyword_on_event argument w =
     (let query = (case argument of None \<Rightarrow> [] | Some a \<Rightarrow> a)
      in if query = [] then (RenderResultListAction [prompt_item], w)
         else (let (matching_dirs, w') = find_matching_dirs query w
               in (RenderResultListAction (create_item query # map use_item matching_dirs), w')))"

section \<open>The file system that directory creation acts on\<close>

text \<open>
  The hierarchy below \<open>/\<close> as path resolution sees it, without symbolic links: a
  non-directory, a directory with its entries, or a directory that may neither be
  searched nor written (mode 000). The working directory of the process is \<open>/\<close>, so
  that a relative path resolves from the same place as an absolute one.
\<close>

datatype fsobj =
    Regular
  | Folder "(string \<times> fsobj) list"
  | Locked

datatype errno = ENOENT | ENOTDIR | EACCES | EEXIST

record oserror =
  code :: errno
  filename :: string

text \<open>The object at a canonical position (names only), from the root.\<close>

fun fs_lookup :: "fsobj \<Rightarrow> string list \<Rightarrow> fsobj option" where
  "fs_lookup n [] = Some n"
| "fs_lookup (Folder es) (c # cs) =
     (case map_of es c of None \<Rightarrow> None | Some m \<Rightarrow> fs_lookup m cs)"
| "fs_lookup _ (c # cs) = None"

text \<open>
  Resolution of a list of components, one at a time, from the canonical position \<open>cur\<close>:
  the current object must be a directory that can be searched; \<open>..\<close> goes to the parent
  (the root is its own parent); a name must exist.
\<close>

fun resolve :: "fsobj \<Rightarrow> string list \<Rightarrow> string list \<Rightarrow> errno + string list" where
  "resolve root cur [] = Inr cur"
| "resolve root cur (c # cs) =
     (case fs_lookup root cur of
        None \<Rightarrow> Inl ENOENT
      | Some Regular \<Rightarrow> Inl ENOTDIR
      | Some Locked \<Rightarrow> Inl EACCES
      | Some (Folder es) \<Rightarrow>
          if c = ''..'' then resolve root (butlast cur) cs
          else (case map_of es c of
                  None \<Rightarrow> Inl ENOENT
                | Some _ \<Rightarrow> resolve root (cur @ [c]) cs))"

text \<open>A new empty directory \<open>c\<close> in the directory at the canonical position \<open>d\<close>.\<close>

fun fs_insert :: "fsobj \<Rightarrow> string list \<Rightarrow> string \<Rightarrow> fsobj"
  and fs_insert_in :: "(string \<times> fsobj) list \<Rightarrow> string \<Rightarrow> string list \<Rightarrow> string
                         \<Rightarrow> (string \<times> fsobj) list" where
  "fs_insert (Folder es) [] c = Folder (es @ [(c, Folder [])])"
| "fs_insert (Folder es) (x # xs) c = Folder (fs_insert_in es x xs c)"
| "fs_insert Regular d c = Regular"
| "fs_insert Locked d c = Locked"
| "fs_insert_in [] x xs c = []"
| "fs_insert_in ((k, m) # es) x xs c =
     (if k = x then (k, fs_insert m xs c) # es else (k, m) # fs_insert_in es x xs c)"

text \<open>
  \<open>os.mkdir(p)\<close>, the system call: everything but the last component is resolved; the
  last one must not exist yet.
\<close>

definition os_mkdir :: "fsobj \<Rightarrow> string list \<Rightarrow> errno + fsobj" where
  "os_mkdir root comps =
     (if comps = [] then Inl EEXIST
      else (case resolve root [] (butlast comps) of
              Inl e \<Rightarrow> Inl e
            | Inr d \<Rightarrow>
                (case fs_lookup root d of
                   None \<Rightarrow> Inl ENOENT
                 | Some Regular \<Rightarrow> Inl ENOTDIR
                 | Some Locked \<Rightarrow> Inl EACCES
                 | Some (Folder es) \<Rightarrow>
                     if last comps = ''..'' then Inl EEXIST
                     else (case map_of es (last comps) of
                             Some _ \<Rightarrow> Inl EEXIST
                           | None \<Rightarrow> Inr (fs_insert root d (last comps))))))"

text \<open>\<open>p.is_dir()\<close>: false on every error.\<close>

definition path_is_dir :: "fsobj \<Rightarrow> string list \<Rightarrow> bool" where
  "path_is_dir root comps =
     (case resolve root [] comps of
        Inl e \<Rightarrow> False
      | Inr d \<Rightarrow> (case fs_lookup root d of
                    Some (Folder es) \<Rightarrow> True
                  | Some Locked \<Rightarrow> True
                  | _ \<Rightarrow> False))"

text \<open>
  \<open>Path.mkdir(parents, exist_ok)\<close> as \<open>pathlib\<close> defines it: try \<open>os.mkdir\<close>; on
  \<open>FileNotFoundError\<close> create the parent with \<open>parents=True, exist_ok=True\<close> and try
  again without \<open>parents\<close>; on any other \<open>OSError\<close> re-raise unless \<open>exist_ok\<close> holds and
  the path is a directory. The result is the error raised, if any, and the file system
  left behind.
\<close>

function mkdir :: "bool \<Rightarrow> bool \<Rightarrow> path \<Rightarrow> fsobj \<Rightarrow> oserror option \<times> fsobj" where
  "mkdir parents exist_ok p root =
     (case os_mkdir root (parts p) of
        Inr root' \<Rightarrow> (None, root')
      | Inl e \<Rightarrow>
          if e = ENOENT then
            (if \<not> parents \<or> parent p = p
             then (Some \<lparr>code = e, filename = str_path p\<rparr>, root)
             else (case mkdir True True (parent p) root of
                     (Some err, root1) \<Rightarrow> (Some err, root1)
                   | (None, root1) \<Rightarrow> mkdir False exist_ok p root1))
          else if \<not> exist_ok \<or> \<not> path_is_dir root (parts p)
               then (Some \<lparr>code = e, filename = str_path p\<rparr>, root)
               else (None, root))"
  by pat_completeness auto
termination
proof (relation "measures [\<lambda>(parents, exist_ok, p, root). length (parts p),
                           \<lambda>(parents, exist_ok, p, root). if parents then 1 else 0]")
  show "wf (measures [\<lambda>(parents, exist_ok, p, root). length (parts p),
                      \<lambda>(parents, exist_ok, p, root). if parents then 1 else 0])"
    by simp
next
  fix parents exist_ok :: bool and p :: path and root :: fsobj and e :: errno
  assume "\<not> (\<not> parents \<or> parent p = p)"
  then have "parts p \<noteq> []" by (auto simp: parent_def)
  then show "((True, True, parent p, root), parents, exist_ok, p, root)
      \<in> measures [\<lambda>(parents, exist_ok, p, root). length (parts p),
                  \<lambda>(parents, exist_ok, p, root). if parents then 1 else 0]"
    by (simp add: parent_def)
next
  fix parents exist_ok :: bool and p :: path and root root1 :: fsobj
  assume "\<not> (\<not> parents \<or> parent p = p)"
  then show "((False, exist_ok, p, root1), parents, exist_ok, p, root)
      \<in> measures [\<lambda>(parents, exist_ok, p, root). length (parts p),
                  \<lambda>(parents, exist_ok, p, root). if parents then 1 else 0]"
    by simp
qed

text \<open>\<open>str(e)\<close> of an \<open>OSError\<close> with a file name.\<close>

definition strerror :: "errno \<Rightarrow> string" where
  "strerror e =
     (case e of
        ENOENT \<Rightarrow> ''[Errno 2] No such file or directory''
      | ENOTDIR \<Rightarrow> ''[Errno 20] Not a directory''
      | EACCES \<Rightarrow> ''[Errno 13] Permission denied''
      | EEXIST \<Rightarrow> ''[Errno 17] File exists'')"

definition str_oserror :: "oserror \<Rightarrow> string" where
  "str_oserror e = strerror (code e) @ '': '' @ [CHR 0x27] @ filename e @ [CHR 0x27]"

section \<open>The item handler\<close>

text \<open>
  What \<open>ItemEnterEventListener.on_event\<close> acts on: the home directory and the log, the
  file system, the argument lists that \<open>subprocess.Popen\<close> has started, and the
  exception that \<open>Popen\<close> raises in this environment, if it does (no terminal installed).
\<close>

record host = env +
  fs :: fsobj
  launched :: "string list list"
  popen_error :: "string option"

text \<open>The argument list of line 112.\<close>

definition kitty_argv :: "string \<Rightarrow> string list" where
  \<open>kitty_argv docker_cmd =
     [''kitty'', ''--'', ''bash'', ''-c'', docker_cmd @ ''; read -p "Press Enter to close..."'']\<close>

text \<open>
  \<open>ItemEnterEventListener.on_event\<close>, with the payload of the event and the preference
  \<open>docker_command\<close>. The function returns \<open>HideWindowAction\<close> on every path.
\<close>

definition item_on_event :: "payload \<Rightarrow> string \<Rightarrow> host \<Rightarrow> result \<times> host" where
  "item_on_event data docker_command h =
     (let workspace_path = Path (path data);
          (failed, workspace_path, h) =
            (if action data = ''create'' then
               (let workspace_path = joinpath (home h) workspace_path
                in case mkdir True True workspace_path (fs h) of
                     (None, root') \<Rightarrow> (False, workspace_path, h\<lparr>fs := root'\<rparr>)
                   | (Some e, root') \<Rightarrow>
                       (True, workspace_path,
                        h\<lparr>fs := root',
                          log := log h @ [''Failed to create directory: '' @ str_oserror e]\<rparr>))
             else (False, workspace_path, h))
      in if failed then (HideWindowAction, h)
         else
           (let docker_cmd = replace ''$WORKSPACE_BASE'' (str_path workspace_path) docker_command
            in case popen_error h of
                 None \<Rightarrow> (HideWindowAction, h\<lparr>launched := launched h @ [kitty_argv docker_cmd]\<rparr>)
               | Some e \<Rightarrow>
                   (HideWindowAction,
                    h\<lparr>log := log h @ [''Failed to execute command: '' @ e]\<rparr>)))"

text \<open>
  Two objects of the same kind; for directories, the second has at least the names of
  the first.
\<close>

fun same_kind :: "fsobj \<Rightarrow> fsobj \<Rightarrow> bool" where
  "same_kind Regular m = (m = Regular)"
| "same_kind Locked m = (m = Locked)"
| "same_kind (Folder es) m = (\<exists>es'. m = Folder es' \<and> dom (map_of es) \<subseteq> dom (map_of es'))"

text \<open>
  The pieces of a text between the occurrences of a token: no occurrence of the token
  starts inside a piece that is followed by one, and the last piece holds none.
\<close>

fun separated :: "string \<Rightarrow> string list \<Rightarrow> bool" where
  "separated old [] = True"
| "separated old [x] = (\<not> str_in old x)"
| "separated old (x # y # ys) = (\<not> str_in old (x @ butlast old) \<and> separated old (y # ys))"

text \<open>The events other than listings.\<close>

fun is_visit :: "event \<Rightarrow> bool" where
  "is_visit (Visit _) = True"
| "is_visit _ = False"

text \<open>The tree with every directory that cannot be listed replaced by an empty one.\<close>

fun as_empty :: "node \<Rightarrow> node"
  and as_empty_list :: "(string \<times> node) list \<Rightarrow> (string \<times> node) list" where
  "as_empty (Dir es) = Dir (as_empty_list es)"
| "as_empty Denied = Dir []"
| "as_empty File = File"
| "as_empty Link = Link"
| "as_empty (Crash msg) = Crash msg"
| "as_empty_list [] = []"
| "as_empty_list ((d, n) # es) = (d, as_empty n) # as_empty_list es"

text \<open>No directory of the tree makes the walk raise.\<close>

fun crash_free :: "node \<Rightarrow> bool"
  and crash_free_list :: "(string \<times> node) list \<Rightarrow> bool" where
  "crash_free (Dir es) = crash_free_list es"
| "crash_free (Crash msg) = False"
| "crash_free File = True"
| "crash_free Denied = True"
| "crash_free Link = True"
| "crash_free_list [] = True"
| "crash_free_list ((d, n) # es) = (crash_free n \<and> crash_free_list es)"

text \<open>
  \<open>s.split(old)\<close> for a non-empty \<open>old\<close>: the pieces of \<open>s\<close> between the occurrences of
  \<open>old\<close>, found from left to right.
\<close>

function pieces :: "string \<Rightarrow> string \<Rightarrow> string list" where
  "pieces old [] = [[]]"
| "pieces old (c # cs) =
     (if old \<noteq> [] \<and> prefix old (c # cs)
      then [] # pieces old (drop (length old) (c # cs))
      else (case pieces old cs of [] \<Rightarrow> [[c]] | w # ws \<Rightarrow> (c # w) # ws))"
  by pat_completeness auto
termination
  by (relation "measure (\<lambda>(old, s). length s)") (auto simp: neq_Nil_conv)

section \<open>Example worlds\<close>

text \<open>
  A home directory with \<open>projects/app1\<close>, \<open>projects/app2\<close>, \<open>.hidden/app3\<close> and
  \<open>work/App4\<close>.
\<close>

definition demo_world :: world where
  "demo_world =
     \<lparr>home = Path ''/home/u'', log = [],
      tree = Dir [(''projects'', Dir [(''app1'', Dir []), (''app2'', Dir [])]),
                  (''.hidden'', Dir [(''app3'', Dir [])]),
                  (''work'', Dir [(''App4'', Dir [])])]\<rparr>"

text \<open>Six matching directories at the top, the first of them with a matching child.\<close>

definition busy_world :: world where
  "busy_world =
     \<lparr>home = Path ''/home/u'', log = [],
      tree = Dir [(''app1'', Dir [(''app7'', Dir [])]), (''app2'', Dir []), (''app3'', Dir []),
                  (''app4'', Dir []), (''app5'', Dir []), (''app6'', Dir [])]\<rparr>"

text \<open>A directory that cannot be listed, next to a matching one.\<close>

definition denied_world :: world where
  "denied_world =
     \<lparr>home = Path ''/home/u'', log = [],
      tree = Dir [(''locked'', Denied), (''work'', Dir [(''app1'', Dir [])])]\<rparr>"

text \<open>A directory at which the walk raises, before a sibling that holds a match.\<close>

definition crash_world :: world where
  "crash_world =
     \<lparr>home = Path ''/home/u'', log = [],
      tree = Dir [(''deep'', Crash ''maximum recursion depth exceeded''),
                  (''work'', Dir [(''app1'', Dir [])])]\<rparr>"

text \<open>
  A file system with \<open>/home/u/projects\<close>, a regular file \<open>/home/u/notes.txt\<close>, a
  directory \<open>/home/u/vault\<close> without permissions, and \<open>/tmp\<close>.
\<close>

definition demo_host :: host where
  "demo_host =
     \<lparr>home = Path ''/home/u'', log = [],
      fs = Folder [(''home'', Folder [(''u'', Folder [(''projects'', Folder []),
                                                     (''notes.txt'', Regular),
                                                     (''vault'', Locked)])]),
                   (''tmp'', Folder [])],
      launched = [], popen_error = None\<rparr>"

definition demo_command :: string where
  "demo_command = ''docker run -v $WORKSPACE_BASE:/ws image''"

section \<open>The search loop runs the event sequence\<close>

text \<open>
  The loop of \<open>find_matching_dirs\<close> over the walk is \<open>exec\<close> over the event sequence of
  the tree. What \<open>exec\<close> returns is then read off the sequence, and what the sequence
  holds is read off the tree.
\<close>

lemma basename_child [simp]: "basename (child p d) = d"
  by (simp add: basename_def child_def)

lemma exec_append:
  "exec q (xs @ ys) s = (case exec q xs s of Next s' \<Rightarrow> exec q ys s' | r \<Rightarrow> r)"
  by (induction q xs s rule: exec.induct) (simp_all add: Let_def)

lemma match_dirs_exec:
  "match_dirs q p ds s = exec q (map (\<lambda>d. Found (child p d)) ds) s"
  by (induction ds arbitrary: s) (simp_all add: hit_def Let_def)

lemma walk_exec:
  "walk q p n s = exec q (discovery p n) s"
  "descend q p es s = exec q (discovery_list p es) s"
  by (induction q p n s and q p es s rule: walk_descend.induct)
     (simp_all add: exec_append match_dirs_exec Let_def split: flow.splits)


lemma visits_append [simp]: "visits (xs @ ys) = visits xs @ visits ys"
  by (induction xs rule: visits.induct) simp_all

lemma exec_matches:
  "length (matches s) < 5 \<Longrightarrow>
   matches (state_of (exec q evs s)) =
     take 5 (matches s @ filter (hit q) (founds (takeWhile (\<lambda>e. \<not> is_fault e) evs)))"
proof (induction q evs s rule: exec.induct)
  case (3 q x evs s)
  show ?case
  proof (cases "length (matches s) = 4")
    case True with 3 show ?thesis by (simp add: Let_def)
  next
    case False
    with 3(3) have "length (matches s) < 4" by simp
    with 3 show ?thesis by (simp add: Let_def)
  qed
qed (simp_all add: Let_def)

lemma exec_returned:
  "exec q evs s = Returned s' \<Longrightarrow> length (matches s) < 5 \<Longrightarrow>
   \<exists>pre x post. evs = pre @ Found x # post \<and> hit q x \<and> (\<forall>e\<in>set pre. \<not> is_fault e) \<and>
      matches s' = matches s @ filter (hit q) (founds pre) @ [x] \<and>
      visited s' = visited s @ visits pre \<and> length (matches s') = 5"
proof (induction q evs s rule: exec.induct)
  case (1 q s) then show ?case by simp
next
  case (2 q p evs s)
  then obtain pre x post where h: "evs = pre @ Found x # post" "hit q x" "\<forall>e\<in>set pre. \<not> is_fault e"
     "matches s' = matches s @ filter (hit q) (founds pre) @ [x]"
     "visited s' = visited s @ [p] @ visits pre" "length (matches s') = 5"
    by auto
  show ?case
    apply (rule exI[of _ "Visit p # pre"], rule exI[of _ x], rule exI[of _ post])
    using h by simp
next
  case (3 q x evs s)
  show ?case
  proof (cases "hit q x")
    case False
    with 3 obtain pre y post where h: "evs = pre @ Found y # post" "hit q y" "\<forall>e\<in>set pre. \<not> is_fault e"
     "matches s' = matches s @ filter (hit q) (founds pre) @ [y]"
     "visited s' = visited s @ visits pre" "length (matches s') = 5"
      by auto
    show ?thesis
      apply (rule exI[of _ "Found x # pre"], rule exI[of _ y], rule exI[of _ post])
      using h False by simp
  next
    case True
    show ?thesis
    proof (cases "length (matches s) = 4")
      case l4: True
      with 3(3) True have "s' = s\<lparr>matches := matches s @ [x]\<rparr>" by (simp add: Let_def)
      then show ?thesis
        apply - apply (rule exI[of _ "[]"], rule exI[of _ x], rule exI[of _ evs])
        using True l4 by simp
    next
      case False
      with 3 True have lt: "length (matches s @ [x]) < 5" by simp
      from 3(3) True False 3(4) have e: "exec q evs (s\<lparr>matches := matches s @ [x]\<rparr>) = Returned s'"
        by (simp add: Let_def split: if_splits)
      from 3(1)[OF True refl _ e] lt False
      obtain pre y post where h: "evs = pre @ Found y # post" "hit q y" "\<forall>e\<in>set pre. \<not> is_fault e"
       "matches s' = matches s @ [x] @ filter (hit q) (founds pre) @ [y]"
       "visited s' = visited s @ visits pre" "length (matches s') = 5"
        by auto
      show ?thesis
        apply (rule exI[of _ "Found x # pre"], rule exI[of _ y], rule exI[of _ post])
        using h True by simp
    qed
  qed
next
  case (4 q msg evs s) then show ?case by simp
qed

lemma below_child: "below (child p d) rel = below p (d # rel)"
  by (simp add: below_def child_def)

lemma child_below: "child p d = below p [d]"
  by (simp add: below_def child_def)

lemma below_Nil [simp]: "below p [] = p"
  by (simp add: below_def)

lemma below_inj [simp]: "below p r = below p r' \<longleftrightarrow> r = r'"
proof
  assume "below p r = below p r'"
  then have "parts (below p r) = parts (below p r')" by simp
  then show "r = r'" by (simp add: below_def)
qed simp



lemma found_visible:
  "Found x \<in> set (discovery p n) \<Longrightarrow>
     \<exists>rel. rel \<noteq> [] \<and> x = below p rel \<and> (\<forall>c\<in>set rel. \<not> startswith_dot c)"
  "Found x \<in> set (discovery_list p es) \<Longrightarrow>
     \<exists>d rel. d \<in> fst ` set es \<and> \<not> startswith_dot d \<and> rel \<noteq> [] \<and> x = below p (d # rel) \<and>
        (\<forall>c\<in>set rel. \<not> startswith_dot c)"
proof (induction p n and p es rule: discovery_discovery_list.induct)
  case (1 p es)
  from 1(2) consider
    (direct) d where "x = child p d" "\<not> startswith_dot d"
    | (deep) "Found x \<in> set (discovery_list p es)"
    by auto
  then show ?case
  proof cases
    case direct
    then show ?thesis by (intro exI[of _ "[d]"]) (simp add: child_below)
  next
    case deep
    from 1(1)[OF deep] obtain d rel where "\<not> startswith_dot d" "x = below p (d # rel)"
      "\<forall>c\<in>set rel. \<not> startswith_dot c" by blast
    then show ?thesis by (intro exI[of _ "d # rel"]) simp
  qed
next
  case (7 p d n es)
  from 7(3) consider
    (here) "is_dir n \<and> \<not> startswith_dot d \<and> \<not> is_link n" "Found x \<in> set (discovery (child p d) n)"
    | (later) "Found x \<in> set (discovery_list p es)"
    by (auto split: if_splits)
  then show ?case
  proof cases
    case here
    from 7(1)[OF here] obtain rel where "rel \<noteq> []" "x = below (child p d) rel"
      "\<forall>c\<in>set rel. \<not> startswith_dot c" by blast
    with here show ?thesis
      by (intro exI[of _ d] exI[of _ rel]) (simp add: below_child)
  next
    case later
    from 7(2)[OF later] show ?thesis by simp blast
  qed
qed simp_all

lemma visit_visible:
  "Visit v \<in> set (discovery p n) \<Longrightarrow>
     \<exists>rel. v = below p rel \<and> (\<forall>c\<in>set rel. \<not> startswith_dot c)"
  "Visit v \<in> set (discovery_list p es) \<Longrightarrow>
     \<exists>rel. v = below p rel \<and> (\<forall>c\<in>set rel. \<not> startswith_dot c)"
proof (induction p n and p es rule: discovery_discovery_list.induct)
  case (1 p es)
  from 1(2) consider (top) "v = p" | (deep) "Visit v \<in> set (discovery_list p es)"
    by auto
  then show ?case
  proof cases
    case top
    then show ?thesis by (intro exI[of _ "[]"]) simp
  next
    case deep
    from 1(1)[OF deep] show ?thesis .
  qed
next
  case (7 p d n es)
  from 7(3) consider
    (here) "is_dir n \<and> \<not> startswith_dot d \<and> \<not> is_link n" "Visit v \<in> set (discovery (child p d) n)"
    | (later) "Visit v \<in> set (discovery_list p es)"
    by (auto split: if_splits)
  then show ?case
  proof cases
    case here
    from 7(1)[OF here] obtain rel where "v = below (child p d) rel"
      "\<forall>c\<in>set rel. \<not> startswith_dot c" by blast
    with here show ?thesis
      by (intro exI[of _ "d # rel"]) (simp add: below_child)
  next
    case later
    from 7(2)[OF later] show ?thesis .
  qed
qed simp_all

lemma set_founds: "x \<in> set (founds evs) \<longleftrightarrow> Found x \<in> set evs"
  by (induction evs rule: founds.induct) auto

lemma set_visits: "x \<in> set (visits evs) \<longleftrightarrow> Visit x \<in> set evs"
  by (induction evs rule: visits.induct) auto

lemma founds_map_Found [simp]: "founds (map (\<lambda>d. Found (f d)) ds) = map f ds"
  by (induction ds) simp_all




lemma str_in_iff: "str_in q s \<longleftrightarrow> (\<exists>u v. s = u @ q @ v)"
proof (induction s)
  case Nil
  then show ?case by simp
next
  case (Cons c cs)
  show ?case
  proof
    assume "str_in q (c # cs)"
    then consider "prefix q (c # cs)" | "str_in q cs" by auto
    then show "\<exists>u v. c # cs = u @ q @ v"
    proof cases
      case 1
      then obtain v where "c # cs = q @ v" by (auto simp: prefix_def)
      then have "c # cs = [] @ q @ v" by simp
      then show ?thesis by blast
    next
      case 2
      with Cons obtain u v where "cs = u @ q @ v" by blast
      then have "c # cs = (c # u) @ q @ v" by simp
      then show ?thesis by blast
    qed
  next
    assume "\<exists>u v. c # cs = u @ q @ v"
    then obtain u v where uv: "c # cs = u @ q @ v" by blast
    show "str_in q (c # cs)"
    proof (cases u)
      case Nil
      with uv have "prefix q (c # cs)" by (simp add: prefix_def)
      then show ?thesis by simp
    next
      case (Cons a u')
      with uv have "cs = u' @ q @ v" by simp
      with Cons.IH show ?thesis by auto
    qed
  qed
qed

lemma str_in_Nil [simp]: "str_in [] s"
  by (induction s) simp_all


lemma fst_find_matching_dirs:
  "fst (find_matching_dirs query w) = matches (state_of (search_home query w))"
  by (simp add: find_matching_dirs_def split: flow.splits)

lemma result_take:
  "fst (find_matching_dirs query w) =
     take 5 (filter (hit (lower query)) (discovered (home w) (tree w)))"
  by (simp add: fst_find_matching_dirs search_home_def walk_exec exec_matches discovered_def)

lemma founds_takeWhile_subset:
  "set (founds (takeWhile P evs)) \<subseteq> set (founds evs)"
  by (auto simp: set_founds dest: set_takeWhileD)


lemma result_subset:
  "set (fst (find_matching_dirs query w)) \<subseteq>
     {x. Found x \<in> set (discovery (home w) (tree w)) \<and> hit (lower query) x}"
proof
  fix x assume "x \<in> set (fst (find_matching_dirs query w))"
  then have "x \<in> set (filter (hit (lower query)) (discovered (home w) (tree w)))"
    unfolding result_take by (rule in_set_takeD)
  then show "x \<in> {x. Found x \<in> set (discovery (home w) (tree w)) \<and> hit (lower query) x}"
    using founds_takeWhile_subset[of "\<lambda>e. \<not> is_fault e" "discovery (home w) (tree w)"]
    by (auto simp: discovered_def set_founds)
qed

section \<open>Properties of \<open>find_matching_dirs\<close>\<close>


lemma demo_result:
  "fst (find_matching_dirs ''app'' demo_world) =
     [Path ''/home/u/projects/app1'', Path ''/home/u/projects/app2'', Path ''/home/u/work/App4'']"
  by code_simp



lemma exec_visited:
  "set (visited (state_of (exec q evs s))) \<subseteq> set (visited s) \<union> set (visits evs)"
  by (induction q evs s rule: exec.induct) (auto simp: Let_def)

text \<open>
  Claim C2. No path returned by \<open>find_matching_dirs\<close> has a component below the home
  directory that starts with a dot, and no directory that the walk lists has one: a
  hidden directory is neither returned nor entered.
\<close>

theorem hidden_never_returned_nor_visited:
  "(\<forall>x\<in>set (fst (find_matching_dirs query w)).
      \<exists>rel. x = below (home w) rel \<and> (\<forall>c\<in>set rel. \<not> startswith_dot c)) \<and>
   (\<forall>v\<in>set (visited (state_of (search_home query w))).
      \<exists>rel. v = below (home w) rel \<and> (\<forall>c\<in>set rel. \<not> startswith_dot c))"
proof (intro conjI ballI)
  fix x assume "x \<in> set (fst (find_matching_dirs query w))"
  with result_subset have "Found x \<in> set (discovery (home w) (tree w))" by auto
  from found_visible(1)[OF this]
  show "\<exists>rel. x = below (home w) rel \<and> (\<forall>c\<in>set rel. \<not> startswith_dot c)" by blast
next
  fix v assume "v \<in> set (visited (state_of (search_home query w)))"
  with exec_visited[of "lower query" "discovery (home w) (tree w)" "\<lparr>matches = [], visited = []\<rparr>"]
  have "Visit v \<in> set (discovery (home w) (tree w))"
    by (auto simp: search_home_def walk_exec set_visits)
  from visit_visible(1)[OF this]
  show "\<exists>rel. v = below (home w) rel \<and> (\<forall>c\<in>set rel. \<not> startswith_dot c)" .
qed

lemma demo_visited:
  "visited (state_of (search_home ''app'' demo_world)) =
     [Path ''/home/u'', Path ''/home/u/projects'', Path ''/home/u/projects/app1'',
      Path ''/home/u/projects/app2'', Path ''/home/u/work'', Path ''/home/u/work/App4'']"
  by code_simp

text \<open>In the example, \<open>.hidden\<close> and \<open>.hidden/app3\<close> are neither returned nor listed.\<close>

theorem hidden_never_returned_nor_visited_witness:
  "Path ''/home/u/projects/app1'' \<in> set (fst (find_matching_dirs ''app'' demo_world)) \<and>
   Path ''/home/u/projects'' \<in> set (visited (state_of (search_home ''app'' demo_world))) \<and>
   (\<exists>rel. Path ''/home/u/projects/app1'' = below (home demo_world) rel \<and>
          (\<forall>c\<in>set rel. \<not> startswith_dot c)) \<and>
   (\<exists>rel. Path ''/home/u/projects'' = below (home demo_world) rel \<and>
          (\<forall>c\<in>set rel. \<not> startswith_dot c))"
proof -
  have m: "Path ''/home/u/projects/app1'' \<in> set (fst (find_matching_dirs ''app'' demo_world))"
    by (simp add: demo_result)
  have v: "Path ''/home/u/projects'' \<in> set (visited (state_of (search_home ''app'' demo_world)))"
    by (simp add: demo_visited)
  from hidden_never_returned_nor_visited[of "''app''" demo_world] m v show ?thesis
    by blast
qed

lemma exec_returned_iff:
  "length (matches s) < 5 \<Longrightarrow>
   (\<exists>s'. exec q evs s = Returned s') \<longleftrightarrow>
     5 \<le> length (matches s) + length (filter (hit q) (founds (takeWhile (\<lambda>e. \<not> is_fault e) evs)))"
proof (induction q evs s rule: exec.induct)
  case (3 q x evs s)
  show ?case
  proof (cases "length (matches s) = 4")
    case True with 3 show ?thesis by (simp add: Let_def)
  next
    case False
    with 3(3) have "length (matches s) < 4" by simp
    with 3 show ?thesis by (simp add: Let_def)
  qed
qed (simp_all add: Let_def)

text \<open>
  Claim C3. The search returns from inside the loop exactly when five matches are
  discovered before the walk ends or raises. When it does, the result is the list of
  five matches, and the run is the part of the traversal up to and including the fifth
  match: the matches are those found so far plus this one, the directories listed are
  those listed so far, and nothing after it (the remaining siblings included) is matched
  or listed.
\<close>

theorem limit_stops_traversal:
  "((\<exists>s. search_home query w = Returned s) \<longleftrightarrow>
      5 \<le> length (filter (hit (lower query)) (discovered (home w) (tree w)))) \<and>
   (\<forall>s. search_home query w = Returned s \<longrightarrow>
      fst (find_matching_dirs query w) = matches s \<and> length (matches s) = 5 \<and>
      (\<exists>pre x post. discovery (home w) (tree w) = pre @ Found x # post \<and>
           matches s = filter (hit (lower query)) (founds pre) @ [x] \<and>
           visited s = visits pre))"
proof (intro conjI allI impI)
  show "(\<exists>s. search_home query w = Returned s) \<longleftrightarrow>
      5 \<le> length (filter (hit (lower query)) (discovered (home w) (tree w)))"
    using exec_returned_iff[of "\<lparr>matches = [], visited = []\<rparr>" "lower query"
        "discovery (home w) (tree w)"]
    by (simp add: search_home_def walk_exec discovered_def)
next
  fix s assume r: "search_home query w = Returned s"
  then show "fst (find_matching_dirs query w) = matches s"
    by (simp add: find_matching_dirs_def)
  from r have e: "exec (lower query) (discovery (home w) (tree w)) \<lparr>matches = [], visited = []\<rparr> = Returned s"
    by (simp add: search_home_def walk_exec)
  from exec_returned[OF e] obtain pre x post where
    h: "discovery (home w) (tree w) = pre @ Found x # post"
       "matches s = filter (hit (lower query)) (founds pre) @ [x]"
       "visited s = visits pre" "length (matches s) = 5"
    by auto
  from h(4) show "length (matches s) = 5" .
  from h show "\<exists>pre x post. discovery (home w) (tree w) = pre @ Found x # post \<and>
           matches s = filter (hit (lower query)) (founds pre) @ [x] \<and>
           visited s = visits pre" by blast
qed

lemma busy_returned:
  "search_home ''app'' busy_world =
     Returned \<lparr>matches = [Path ''/home/u/app1'', Path ''/home/u/app2'', Path ''/home/u/app3'',
                          Path ''/home/u/app4'', Path ''/home/u/app5''],
               visited = [Path ''/home/u'']\<rparr>"
  by code_simp

text \<open>
  With six matching directories in the home directory, the fifth ends the search: the
  sixth is not matched and the first is never entered.
\<close>

theorem limit_stops_traversal_witness:
  "search_home ''app'' busy_world =
     Returned \<lparr>matches = [Path ''/home/u/app1'', Path ''/home/u/app2'', Path ''/home/u/app3'',
                          Path ''/home/u/app4'', Path ''/home/u/app5''],
               visited = [Path ''/home/u'']\<rparr> \<and>
   5 \<le> length (filter (hit (lower ''app'')) (discovered (home busy_world) (tree busy_world))) \<and>
   fst (find_matching_dirs ''app'' busy_world) =
     [Path ''/home/u/app1'', Path ''/home/u/app2'', Path ''/home/u/app3'',
      Path ''/home/u/app4'', Path ''/home/u/app5'']"
  using limit_stops_traversal[of "''app''" busy_world] busy_returned
  by auto

lemma hit_Nil [simp]: "hit [] x"
  by (simp add: hit_def)

text \<open>
  Claim C5. For the empty query, \<open>find_matching_dirs\<close> returns the first five of the
  directories discovered under the home directory, in traversal order; each of them lies
  below the home directory on a path without hidden components.
\<close>

theorem empty_query_returns_first_discovered:
  "fst (find_matching_dirs [] w) = take 5 (discovered (home w) (tree w)) \<and>
   (\<forall>x\<in>set (discovered (home w) (tree w)).
      \<exists>rel. rel \<noteq> [] \<and> x = below (home w) rel \<and> (\<forall>c\<in>set rel. \<not> startswith_dot c))"
proof (intro conjI ballI)
  show "fst (find_matching_dirs [] w) = take 5 (discovered (home w) (tree w))"
    by (simp add: result_take lower_def)
next
  fix x assume "x \<in> set (discovered (home w) (tree w))"
  then have "Found x \<in> set (discovery (home w) (tree w))"
    using founds_takeWhile_subset[of "\<lambda>e. \<not> is_fault e" "discovery (home w) (tree w)"]
    by (auto simp: discovered_def set_founds)
  from found_visible(1)[OF this]
  show "\<exists>rel. rel \<noteq> [] \<and> x = below (home w) rel \<and> (\<forall>c\<in>set rel. \<not> startswith_dot c)" .
qed

lemma demo_discovered:
  "discovered (home demo_world) (tree demo_world) =
     [Path ''/home/u/projects'', Path ''/home/u/work'', Path ''/home/u/projects/app1'',
      Path ''/home/u/projects/app2'', Path ''/home/u/work/App4'']"
  by code_simp

text \<open>The example has five directories outside \<open>.hidden\<close>; the empty query returns them all.\<close>

theorem empty_query_returns_first_discovered_witness:
  "fst (find_matching_dirs [] demo_world) =
     [Path ''/home/u/projects'', Path ''/home/u/work'', Path ''/home/u/projects/app1'',
      Path ''/home/u/projects/app2'', Path ''/home/u/work/App4''] \<and>
   (\<exists>rel. rel \<noteq> [] \<and> Path ''/home/u/work/App4'' = below (home demo_world) rel \<and>
          (\<forall>c\<in>set rel. \<not> startswith_dot c))"
proof -
  have m: "Path ''/home/u/work/App4'' \<in> set (discovered (home demo_world) (tree demo_world))"
    by (simp add: demo_discovered)
  from empty_query_returns_first_discovered[of demo_world] m show ?thesis
    by (simp add: demo_discovered)
qed

lemma search_home_log [simp]: "search_home query (w\<lparr>log := l\<rparr>) = search_home query w"
  by (simp add: search_home_def)

lemma snd_find_matching_dirs:
  "\<exists>l. snd (find_matching_dirs query w) = w\<lparr>log := l\<rparr>"
proof (cases "search_home query w")
  case (Raised e s)
  then have "snd (find_matching_dirs query w) =
      w\<lparr>log := log w @ [''Error searching directories: '' @ e]\<rparr>"
    by (simp add: find_matching_dirs_def)
  then show ?thesis by blast
next
  case (Next s)
  then have "snd (find_matching_dirs query w) = w\<lparr>log := log w\<rparr>"
    by (simp add: find_matching_dirs_def)
  then show ?thesis by blast
next
  case (Returned s)
  then have "snd (find_matching_dirs query w) = w\<lparr>log := log w\<rparr>"
    by (simp add: find_matching_dirs_def)
  then show ?thesis by blast
qed

text \<open>
  Claim C9. A call of \<open>find_matching_dirs\<close> leaves the home directory and the tree as they
  were, and a second call with the same query, made in the world the first call left
  behind, returns the same sequence.
\<close>

theorem repeated_call_same_result:
  "fst (find_matching_dirs query (snd (find_matching_dirs query w))) =
     fst (find_matching_dirs query w) \<and>
   tree (snd (find_matching_dirs query w)) = tree w \<and>
   home (snd (find_matching_dirs query w)) = home w"
proof -
  obtain l where l: "snd (find_matching_dirs query w) = w\<lparr>log := l\<rparr>"
    using snd_find_matching_dirs by blast
  show ?thesis
    unfolding l by (simp add: fst_find_matching_dirs)
qed

section \<open>Directory creation\<close>

text \<open>
  Inserting a directory keeps every object that was there, so paths that resolved before
  still resolve; from this, a successful \<open>mkdir\<close> leaves a directory at its path, an
  existing directory is left alone, and missing parents are created one by one.
\<close>

lemma fs_lookup_append:
  "fs_lookup n (xs @ ys) = (case fs_lookup n xs of None \<Rightarrow> None | Some m \<Rightarrow> fs_lookup m ys)"
  by (induction n xs rule: fs_lookup.induct) (auto split: option.splits)

lemma resolve_append:
  "resolve root cur (xs @ ys) =
     (case resolve root cur xs of Inl e \<Rightarrow> Inl e | Inr r \<Rightarrow> resolve root r ys)"
  by (induction root cur xs rule: resolve.induct)
     (auto split: option.splits fsobj.splits)

lemma same_kind_refl [simp]: "same_kind m m"
  by (cases m) auto

lemma fst_fs_insert_in [simp]: "map fst (fs_insert_in es x xs c) = map fst es"
  by (induction es) auto

lemma dom_fs_insert_in [simp]: "dom (map_of (fs_insert_in es x xs c)) = dom (map_of es)"
  by (simp add: dom_map_of_conv_image_fst flip: set_map)

lemma map_of_fs_insert_in_other:
  "k \<noteq> x \<Longrightarrow> map_of (fs_insert_in es x xs c) k = map_of es k"
  by (induction es) auto

lemma map_of_fs_insert_in_same:
  "map_of es x = Some n \<Longrightarrow> map_of (fs_insert_in es x xs c) x = Some (fs_insert n xs c)"
  by (induction es) auto

lemma lookup_after_insert:
  "fs_lookup root y = Some m \<Longrightarrow>
     \<exists>m'. fs_lookup (fs_insert root d c) y = Some m' \<and> same_kind m m'"
proof (induction d arbitrary: root y m)
  case Nil
  show ?case
  proof (cases root)
    case (Folder es)
    show ?thesis
    proof (cases y)
      case Nil
      with Folder \<open>fs_lookup root y = Some m\<close> show ?thesis by auto
    next
      case (Cons k ys)
      with Folder \<open>fs_lookup root y = Some m\<close> obtain n where
        "map_of es k = Some n" "fs_lookup n ys = Some m"
        by (auto split: option.splits)
      with Folder Cons show ?thesis
        by (auto simp: map_add_Some_iff intro!: exI[of _ m])
    qed
  qed (use Nil in auto)
next
  case (Cons x xs)
  show ?case
  proof (cases root)
    case (Folder es)
    show ?thesis
    proof (cases y)
      case Nil
      with Folder Cons.prems show ?thesis by auto
    next
      case c: (Cons k ys)
      with Folder Cons.prems obtain n where
        n: "map_of es k = Some n" "fs_lookup n ys = Some m"
        by (auto split: option.splits)
      show ?thesis
      proof (cases "k = x")
        case True
        from Cons.IH[OF n(2)] obtain m' where
          "fs_lookup (fs_insert n xs c) ys = Some m'" "same_kind m m'" by blast
        with Folder c True n show ?thesis
          by (simp add: map_of_fs_insert_in_same)
      next
        case False
        with Folder c n show ?thesis
          by (simp add: map_of_fs_insert_in_other)
      qed
    qed
  qed (use Cons.prems in auto)
qed

lemma resolve_after_insert:
  "resolve root cur cs = Inr r \<Longrightarrow> resolve (fs_insert root d c) cur cs = Inr r"
proof (induction root cur cs rule: resolve.induct)
  case (1 root cur)
  then show ?case by simp
next
  case (2 root cur k cs)
  from 2(3) obtain es where es: "fs_lookup root cur = Some (Folder es)"
    by (auto split: option.splits fsobj.splits)
  from lookup_after_insert[OF es, of d c] obtain es' where
    es': "fs_lookup (fs_insert root d c) cur = Some (Folder es')"
         "dom (map_of es) \<subseteq> dom (map_of es')"
    by auto
  show ?case
  proof (cases "k = ''..''")
    case True
    with 2 es es' show ?thesis by simp
  next
    case False
    with 2(3) es obtain n where n: "map_of es k = Some n" "resolve root (cur @ [k]) cs = Inr r"
      by (auto split: option.splits)
    with es'(2) obtain n' where "map_of es' k = Some n'" by (metis domD domI subsetD)
    with 2(2)[OF es refl False n(1) n(2)] es' False show ?thesis by simp
  qed
qed

lemma fs_lookup_insert_at:
  "fs_lookup root d = Some (Folder es) \<Longrightarrow>
     fs_lookup (fs_insert root d c) d = Some (Folder (es @ [(c, Folder [])]))"
proof (induction d arbitrary: root)
  case Nil
  then show ?case by simp
next
  case (Cons x xs)
  then obtain es0 n where r: "root = Folder es0" "map_of es0 x = Some n"
      "fs_lookup n xs = Some (Folder es)"
    by (cases root) (auto split: option.splits)
  with Cons.IH[OF r(3)] show ?case
    by (simp add: map_of_fs_insert_in_same)
qed

lemma os_mkdir_success:
  assumes "os_mkdir root comps = Inr root'"
  shows "\<exists>d. resolve root [] (butlast comps) = Inr d \<and>
             resolve root' [] comps = Inr (d @ [last comps]) \<and>
             fs_lookup root' (d @ [last comps]) = Some (Folder [])"
proof -
  from assms have ne: "comps \<noteq> []" by (auto simp: os_mkdir_def)
  from assms ne obtain d es where d: "resolve root [] (butlast comps) = Inr d"
     "fs_lookup root d = Some (Folder es)" "last comps \<noteq> ''..''"
     "map_of es (last comps) = None" "root' = fs_insert root d (last comps)"
    by (auto simp: os_mkdir_def split: sum.splits option.splits fsobj.splits if_splits)
  let ?c = "last comps"
  from resolve_after_insert[OF d(1)] d(5)
  have r1: "resolve root' [] (butlast comps) = Inr d" by simp
  from fs_lookup_insert_at[OF d(2)] d(5)
  have l1: "fs_lookup root' d = Some (Folder (es @ [(?c, Folder [])]))" by simp
  from d(4) have m: "map_of (es @ [(?c, Folder [])]) ?c = Some (Folder [])"
    by (simp add: map_add_Some_iff)
  have "resolve root' d [?c] = Inr (d @ [?c])"
    using l1 d(3) m by simp
  with r1 have "resolve root' [] (butlast comps @ [?c]) = Inr (d @ [?c])"
    by (simp add: resolve_append)
  with ne have r2: "resolve root' [] comps = Inr (d @ [?c])" by simp
  from l1 m have "fs_lookup root' (d @ [?c]) = Some (Folder [])"
    by (simp add: fs_lookup_append)
  with d(1) r2 show ?thesis by blast
qed

lemma os_mkdir_is_dir: "os_mkdir root comps = Inr root' \<Longrightarrow> path_is_dir root' comps"
  using os_mkdir_success[of root comps root'] by (auto simp: path_is_dir_def)

lemma mkdir_is_dir:
  "fst (mkdir parents exist_ok p root) = None \<Longrightarrow>
     path_is_dir (snd (mkdir parents exist_ok p root)) (parts p)"
proof (induction parents exist_ok p root rule: mkdir.induct)
  case (1 parents exist_ok p root)
  show ?case
  proof (cases "os_mkdir root (parts p)")
    case (Inr root')
    then show ?thesis by (simp add: os_mkdir_is_dir)
  next
    case (Inl e)
    show ?thesis
    proof (cases "e = ENOENT")
      case False
      with Inl 1(3) show ?thesis by (auto split: if_splits)
    next
      case True
      show ?thesis
      proof (cases "\<not> parents \<or> parent p = p")
        case True
        with Inl \<open>e = ENOENT\<close> 1(3) show ?thesis by simp
      next
        case False
        obtain err root1 where m1: "mkdir True True (parent p) root = (err, root1)"
          by (cases "mkdir True True (parent p) root")
        show ?thesis
        proof (cases err)
          case (Some a)
          with Inl True False m1 1(3) show ?thesis by simp
        next
          case None
          with Inl True False m1 1(3) have "fst (mkdir False exist_ok p root1) = None" by simp
          from 1(2)[OF Inl True False m1[symmetric] _ this] None
          have "path_is_dir (snd (mkdir False exist_ok p root1)) (parts p)" by simp
          with Inl True False m1 None show ?thesis by simp
        qed
      qed
    qed
  qed
qed




declare mkdir.simps [simp del]

section \<open>Substitution and the item handler\<close>

text \<open>
  \<open>replace\<close> turns the pieces of a text joined by the token into the same pieces joined
  by the new text, and every text is such a join.
\<close>

lemma not_str_in_Cons: "\<not> str_in old (c # cs) \<Longrightarrow> \<not> prefix old (c # cs) \<and> \<not> str_in old cs"
  by simp

lemma replace_from_absent:
  "\<not> str_in old s \<Longrightarrow> replace_from old new s = s"
  by (induction s) auto

lemma replace_from_at:
  "old \<noteq> [] \<Longrightarrow> replace_from old new (old @ v) = new @ replace_from old new v"
  by (cases old) simp_all

lemma prefix_within:
  "prefix xs (ys @ zs) \<Longrightarrow> length xs \<le> length ys \<Longrightarrow> prefix xs ys"
proof -
  assume p: "prefix xs (ys @ zs)" and l: "length xs \<le> length ys"
  from p have "xs = take (length xs) (ys @ zs)"
    by (metis append_eq_conv_conj prefix_def)
  with l have "xs = take (length xs) ys" by simp
  then show "prefix xs ys" by (metis take_is_prefix)
qed

lemma replace_from_skip:
  assumes "old \<noteq> []"
  shows "\<not> str_in old (u @ butlast old) \<Longrightarrow>
     replace_from old new (u @ old @ v) = u @ new @ replace_from old new v"
proof (induction u)
  case Nil
  with assms show ?case by (simp add: replace_from_at)
next
  case (Cons a u)
  then have np: "\<not> prefix old (a # u @ butlast old)" and ns: "\<not> str_in old (u @ butlast old)"
    by simp_all
  have "\<not> prefix old (a # u @ old @ v)"
  proof
    assume p: "prefix old (a # u @ old @ v)"
    from assms have "old = butlast old @ [last old]" by simp
    then have "old @ v = butlast old @ last old # v"
      by (metis append.assoc append_Cons append_Nil)
    then have e: "a # u @ old @ v = (a # u @ butlast old) @ (last old # v)"
      by simp
    have "length old \<le> length (a # u @ butlast old)" by simp
    with p e have "prefix old (a # u @ butlast old)"
      using prefix_within[of old "a # u @ butlast old" "last old # v"] by simp
    with np show False by simp
  qed
  with Cons.IH[OF ns] show ?case by simp
qed

lemma replace_join:
  "old \<noteq> [] \<Longrightarrow> separated old segs \<Longrightarrow>
     replace old new (join_with old segs) = join_with new segs"
proof (induction old segs rule: separated.induct)
  case (1 old)
  then show ?case by (simp add: replace_def)
next
  case (2 old x)
  then show ?case by (simp add: replace_def replace_from_absent)
next
  case (3 old x y ys)
  then have "replace_from old new (join_with old (y # ys)) = join_with new (y # ys)"
    by (simp add: replace_def)
  with 3 show ?case
    by (simp add: replace_def replace_from_skip)
qed

lemma pieces_not_Nil [simp]: "pieces old s \<noteq> []"
  by (induction old s rule: pieces.induct) (auto split: list.splits)

lemma join_with_Cons:
  "ys \<noteq> [] \<Longrightarrow> join_with sep (x # ys) = x @ sep @ join_with sep ys"
  by (cases ys) simp_all

lemma join_with_grow:
  "join_with sep ((c # w) # ws) = c # join_with sep (w # ws)"
  by (cases ws) simp_all

lemma join_pieces: "join_with old (pieces old s) = s"
proof (induction old s rule: pieces.induct)
  case (1 old)
  then show ?case by simp
next
  case (2 old c cs)
  show ?case
  proof (cases "old \<noteq> [] \<and> prefix old (c # cs)")
    case True
    then obtain v where v: "c # cs = old @ v" by (auto simp: prefix_def)
    then have d: "drop (length old) (c # cs) = v" by (metis append_eq_conv_conj)
    from True have "pieces old (c # cs) = [] # pieces old (drop (length old) (c # cs))"
      by simp
    with d have p: "pieces old (c # cs) = [] # pieces old v" by simp
    from 2(1)[OF True] d have "join_with old (pieces old v) = v" by simp
    with p v show ?thesis
      by (simp add: join_with_Cons)
  next
    case False
    with 2(2) obtain w ws where w: "pieces old cs = w # ws"
      by (cases "pieces old cs") auto
    from False w have "pieces old (c # cs) = (c # w) # ws" by auto
    with 2(2)[OF False] w show ?thesis
      by (simp add: join_with_grow)
  qed
qed

lemma separated_pieces: "old \<noteq> [] \<Longrightarrow> separated old (pieces old s)"
proof (induction old s rule: pieces.induct)
  case (1 old)
  then show ?case by simp
next
  case (2 old c cs)
  show ?case
  proof (cases "prefix old (c # cs)")
    case True
    obtain y ys where y: "pieces old (drop (length old) (c # cs)) = y # ys"
      by (cases "pieces old (drop (length old) (c # cs))") auto
    have "\<not> str_in old (butlast old)"
    proof
      assume "str_in old (butlast old)"
      then obtain u v where "butlast old = u @ old @ v" by (auto simp: str_in_iff)
      then have "length (butlast old) = length (u @ old @ v)" by simp
      then have "length old - 1 = length u + length old + length v" by simp
      moreover from 2(3) have "0 < length old" by simp
      ultimately show False by arith
    qed
    with 2(1) 2(3) True y show ?thesis by simp
  next
    case False
    obtain w ws where w: "pieces old cs = w # ws"
      by (cases "pieces old cs") auto
    from 2(2) 2(3) False w have sep: "separated old (w # ws)" by simp
    have cs: "cs = join_with old (w # ws)" using join_pieces[of old cs] w by simp
    show ?thesis
    proof (cases ws)
      case Nil
      with cs have "cs = w" by simp
      with False sep Nil have "\<not> str_in old (c # w)" by simp
      with False w Nil 2(3) show ?thesis by simp
    next
      case (Cons y ys)
      with sep have n: "\<not> str_in old (w @ butlast old)" by simp
      from 2(3) have "old = butlast old @ [last old]" by simp
      then have "old @ join_with old (y # ys) = butlast old @ last old # join_with old (y # ys)"
        by (metis append.assoc append_Cons append_Nil)
      with cs Cons have e: "c # cs = (c # w @ butlast old) @ last old # join_with old (y # ys)"
        by simp
      have "\<not> prefix old (c # w @ butlast old)"
      proof
        assume "prefix old (c # w @ butlast old)"
        then have "prefix old ((c # w @ butlast old) @ last old # join_with old (y # ys))"
          by (rule prefix_prefix)
        with e False show False by simp
      qed
      with n have "\<not> str_in old ((c # w) @ butlast old)" by simp
      with False w Cons sep 2(3) show ?thesis by simp
    qed
  qed
qed

lemma replace_pieces:
  "old \<noteq> [] \<Longrightarrow> replace old new s = join_with new (pieces old s)"
  using replace_join[of old "pieces old s" new] by (simp add: join_pieces separated_pieces)


lemma item_on_event_created:
  "action d = ''create'' \<Longrightarrow>
   mkdir True True (joinpath (home h) (Path (path d))) (fs h) = (None, root') \<Longrightarrow>
   item_on_event d t h =
     (HideWindowAction,
      case popen_error h of
        None \<Rightarrow> h\<lparr>fs := root', launched := launched h @
                      [kitty_argv (replace ''$WORKSPACE_BASE''
                          (str_path (joinpath (home h) (Path (path d)))) t)]\<rparr>
      | Some e \<Rightarrow> h\<lparr>fs := root', log := log h @ [''Failed to execute command: '' @ e]\<rparr>)"
  by (simp add: item_on_event_def Let_def split: option.splits)

lemma item_on_event_failed:
  "action d = ''create'' \<Longrightarrow>
   mkdir True True (joinpath (home h) (Path (path d))) (fs h) = (Some e, root') \<Longrightarrow>
   item_on_event d t h =
     (HideWindowAction,
      h\<lparr>fs := root', log := log h @ [''Failed to create directory: '' @ str_oserror e]\<rparr>)"
  by (simp add: item_on_event_def Let_def)


lemma demo_command_pieces:
  "demo_command = join_with ''$WORKSPACE_BASE'' [''docker run -v '', '':/ws image'']"
  by (simp add: demo_command_def)




lemma demo_create_abc:
  "item_on_event \<lparr>action = ''create'', path = ''a/b''\<rparr> demo_command demo_host =
     (HideWindowAction,
      \<lparr>home = Path ''/home/u'', log = [],
       fs = Folder [(''home'', Folder [(''u'', Folder [(''projects'', Folder []),
                                                      (''notes.txt'', Regular),
                                                      (''vault'', Locked),
                                                      (''a'', Folder [(''b'', Folder [])])])]),
                    (''tmp'', Folder [])],
       launched = [kitty_argv ''docker run -v /home/u/a/b:/ws image''],
       popen_error = None\<rparr>)"
  by code_simp

lemma demo_create_blocked:
  "item_on_event \<lparr>action = ''create'', path = ''notes.txt/y''\<rparr> demo_command demo_host =
     (HideWindowAction,
      demo_host\<lparr>log := [''Failed to create directory: [Errno 20] Not a directory: '' @
                          [CHR 0x27] @ ''/home/u/notes.txt/y'' @ [CHR 0x27]]\<rparr>)"
  by code_simp




lemma demo_create_ab_fs:
  "path_is_dir
     (fs (snd (item_on_event \<lparr>action = ''create'', path = ''a/b''\<rparr> demo_command demo_host)))
     [''home'', ''u'', ''a'', ''b'']"
  unfolding demo_create_abc by code_simp


lemma Path_absolute: "prefix ''/'' s \<Longrightarrow> anchor (Path s) \<noteq> []"
  by (simp add: Path_def)

text \<open>
  Claim C10. When the payload path of a \<open>create\<close> item is absolute, joining it to the
  home directory gives the path itself: the directory is created at that absolute
  place, and that place is substituted into the launched command.
\<close>

theorem absolute_create_path:
  assumes "action d = ''create''" and "prefix ''/'' (path d)"
  shows "joinpath (home h) (Path (path d)) = Path (path d) \<and>
    fs (snd (item_on_event d t h)) = snd (mkdir True True (Path (path d)) (fs h)) \<and>
    (fst (mkdir True True (Path (path d)) (fs h)) = None \<longrightarrow>
       path_is_dir (fs (snd (item_on_event d t h))) (parts (Path (path d))) \<and>
       (popen_error h = None \<longrightarrow>
          launched (snd (item_on_event d t h)) =
            launched h @
            [kitty_argv (replace ''$WORKSPACE_BASE'' (str_path (Path (path d))) t)]))"
proof -
  from assms(2) have j: "joinpath (home h) (Path (path d)) = Path (path d)"
    by (simp add: joinpath_def Path_absolute)
  obtain err root' where m: "mkdir True True (Path (path d)) (fs h) = (err, root')"
    by (cases "mkdir True True (Path (path d)) (fs h)")
  have b: "fs (snd (item_on_event d t h)) = snd (mkdir True True (Path (path d)) (fs h))"
    using assms(1) m j
    by (cases err)
       (simp_all add: item_on_event_created item_on_event_failed split: option.splits)
  have c: "path_is_dir (fs (snd (item_on_event d t h))) (parts (Path (path d)))"
    if "fst (mkdir True True (Path (path d)) (fs h)) = None"
    using mkdir_is_dir[OF that] b by simp
  have c': "launched (snd (item_on_event d t h)) =
            launched h @ [kitty_argv (replace ''$WORKSPACE_BASE'' (str_path (Path (path d))) t)]"
    if "fst (mkdir True True (Path (path d)) (fs h)) = None" "popen_error h = None"
    using that assms(1) m j by (simp add: item_on_event_created)
  from j b c c' show ?thesis by blast
qed

lemma demo_create_tmp:
  "item_on_event \<lparr>action = ''create'', path = ''/tmp/w/z''\<rparr> demo_command demo_host =
     (HideWindowAction,
      \<lparr>home = Path ''/home/u'', log = [],
       fs = Folder [(''home'', Folder [(''u'', Folder [(''projects'', Folder []),
                                                      (''notes.txt'', Regular),
                                                      (''vault'', Locked)])]),
                    (''tmp'', Folder [(''w'', Folder [(''z'', Folder [])])])],
       launched = [kitty_argv ''docker run -v /tmp/w/z:/ws image''],
       popen_error = None\<rparr>)"
  by code_simp

lemma demo_mkdir_tmp:
  "fst (mkdir True True (Path ''/tmp/w/z'') (fs demo_host)) = None"
  by code_simp

text \<open>With the home directory \<open>/home/u\<close>, the path \<open>/tmp/w/z\<close> is created under \<open>/tmp\<close>.\<close>

theorem absolute_create_path_witness:
  "action \<lparr>action = ''create'', path = ''/tmp/w/z''\<rparr> = ''create'' \<and>
   prefix ''/'' (path \<lparr>action = ''create'', path = ''/tmp/w/z''\<rparr>) \<and>
   joinpath (home demo_host) (Path ''/tmp/w/z'') = Path ''/tmp/w/z'' \<and>
   fst (mkdir True True (Path ''/tmp/w/z'') (fs demo_host)) = None \<and>
   path_is_dir (fs (snd (item_on_event \<lparr>action = ''create'', path = ''/tmp/w/z''\<rparr>
                           demo_command demo_host)))
     (parts (Path ''/tmp/w/z'')) \<and>
   parts (Path ''/tmp/w/z'') = [''tmp'', ''w'', ''z''] \<and>
   str_path (home demo_host) = ''/home/u'' \<and>
   launched (snd (item_on_event \<lparr>action = ''create'', path = ''/tmp/w/z''\<rparr>
                    demo_command demo_host)) =
     [kitty_argv ''docker run -v /tmp/w/z:/ws image'']"
proof -
  let ?d = "\<lparr>action = ''create'', path = ''/tmp/w/z''\<rparr>"
  have a: "action ?d = ''create''" by simp
  have x: "prefix ''/'' (path ?d)" by simp
  have m: "fst (mkdir True True (Path (path ?d)) (fs demo_host)) = None"
    using demo_mkdir_tmp by simp
  note T = absolute_create_path[OF a x, of demo_host demo_command]
  from T have j: "joinpath (home demo_host) (Path (path ?d)) = Path (path ?d)"
    by blast
  then have j': "joinpath (home demo_host) (Path ''/tmp/w/z'') = Path ''/tmp/w/z''"
    by simp
  from T m have "path_is_dir (fs (snd (item_on_event ?d demo_command demo_host)))
      (parts (Path (path ?d)))"
    by blast
  then have pd: "path_is_dir (fs (snd (item_on_event ?d demo_command demo_host)))
      (parts (Path ''/tmp/w/z''))"
    by simp
  have p: "parts (Path ''/tmp/w/z'') = [''tmp'', ''w'', ''z'']"
    by code_simp
  have h: "str_path (home demo_host) = ''/home/u''"
    by code_simp
  have l: "launched (snd (item_on_event ?d demo_command demo_host)) =
     [kitty_argv ''docker run -v /tmp/w/z:/ws image'']"
    unfolding demo_create_tmp by simp
  from a x j' demo_mkdir_tmp pd p h l show ?thesis by (intro conjI)
qed

text \<open>
  Claim C8. For a non-empty query, the keyword handler returns a result list whose first
  item carries the payload \<open>create\<close> with the query as typed, followed by one item per
  matched directory, in match order, each carrying the payload \<open>use\<close> with the text of the
  matched path; the list has at most six items.
\<close>

theorem keyword_results:
  assumes "query \<noteq> []"
  shows "\<exists>items. fst (keyword_on_event (Some query) w) = RenderResultListAction items \<and>
           map on_enter items =
             ExtensionCustomAction \<lparr>action = ''create'', path = query\<rparr> #
             map (\<lambda>x. ExtensionCustomAction \<lparr>action = ''use'', path = str_path x\<rparr>)
               (fst (find_matching_dirs query w)) \<and>
           map name items =
             (''Create and use: '' @ query) # map str_path (fst (find_matching_dirs query w)) \<and>
           length items \<le> 6"
proof -
  have "length (fst (find_matching_dirs query w)) \<le> 5"
    by (simp add: result_take)
  with assms show ?thesis
    by (simp add: keyword_on_event_def Let_def split_beta create_item_def use_item_def comp_def)
qed

lemma demo_keyword:
  "fst (keyword_on_event (Some ''app'') demo_world) =
     RenderResultListAction
       [create_item ''app'', use_item (Path ''/home/u/projects/app1''),
        use_item (Path ''/home/u/projects/app2''), use_item (Path ''/home/u/work/App4'')]"
  by code_simp

text \<open>The example home directory, queried for \<open>app\<close>.\<close>

theorem keyword_results_witness:
  "''app'' \<noteq> [] \<and>
   fst (keyword_on_event (Some ''app'') demo_world) =
     RenderResultListAction
       [create_item ''app'', use_item (Path ''/home/u/projects/app1''),
        use_item (Path ''/home/u/projects/app2''), use_item (Path ''/home/u/work/App4'')] \<and>
   (\<exists>items. fst (keyword_on_event (Some ''app'') demo_world) = RenderResultListAction items \<and>
      map on_enter items =
        ExtensionCustomAction \<lparr>action = ''create'', path = ''app''\<rparr> #
        map (\<lambda>x. ExtensionCustomAction \<lparr>action = ''use'', path = str_path x\<rparr>)
          (fst (find_matching_dirs ''app'' demo_world)))"
proof -
  have n: "''app'' \<noteq> []" by simp
  from keyword_results[OF n, of demo_world] obtain items where
    i: "fst (keyword_on_event (Some ''app'') demo_world) = RenderResultListAction items"
       "map on_enter items =
        ExtensionCustomAction \<lparr>action = ''create'', path = ''app''\<rparr> #
        map (\<lambda>x. ExtensionCustomAction \<lparr>action = ''use'', path = str_path x\<rparr>)
          (fst (find_matching_dirs ''app'' demo_world))"
    by (elim exE conjE)
  then have e: "\<exists>items. fst (keyword_on_event (Some ''app'') demo_world) = RenderResultListAction items \<and>
      map on_enter items =
        ExtensionCustomAction \<lparr>action = ''create'', path = ''app''\<rparr> #
        map (\<lambda>x. ExtensionCustomAction \<lparr>action = ''use'', path = str_path x\<rparr>)
          (fst (find_matching_dirs ''app'' demo_world))"
    by (intro exI[of _ items] conjI)
  from n demo_keyword e show ?thesis by (intro conjI)
qed

section \<open>Errors during the traversal\<close>

text \<open>
  The listings themselves do not matter for what is returned and logged, so an empty
  directory in place of one that cannot be listed changes neither.
\<close>

lemma is_dir_as_empty [simp]: "is_dir (as_empty n) = is_dir n"
  by (cases n) simp_all

lemma is_link_as_empty [simp]: "is_link (as_empty n) = is_link n"
  by (cases n) simp_all

lemma dir_names_as_empty [simp]: "dir_names (as_empty_list es) = dir_names es"
  by (induction es) (auto simp: dir_names_def)

lemma dir_names_Nil: "dir_names [] = []"
  by (simp add: dir_names_def)

lemma discovery_as_empty:
  "filter (\<lambda>e. \<not> is_visit e) (discovery p (as_empty n)) =
     filter (\<lambda>e. \<not> is_visit e) (discovery p n)"
  "filter (\<lambda>e. \<not> is_visit e) (discovery_list p (as_empty_list es)) =
     filter (\<lambda>e. \<not> is_visit e) (discovery_list p es)"
  by (induction p n and p es rule: discovery_discovery_list.induct)
     (simp_all add: dir_names_Nil)

lemma exec_without_visits:
  "matches s = matches s' \<Longrightarrow>
     map_flow matches (exec q evs s) =
     map_flow matches (exec q (filter (\<lambda>e. \<not> is_visit e) evs) s')"
proof (induction q evs s arbitrary: s' rule: exec.induct)
  case (3 q x evs s)
  show ?case
  proof (cases "hit q x")
    case False
    with 3 show ?thesis by simp
  next
    case True
    show ?thesis
    proof (cases "5 \<le> length (matches s @ [x])")
      case True
      with \<open>hit q x\<close> 3(3) show ?thesis by (simp add: Let_def)
    next
      case False
      have "map_flow matches (exec q evs (s\<lparr>matches := matches s @ [x]\<rparr>)) =
            map_flow matches (exec q (filter (\<lambda>e. \<not> is_visit e) evs)
               (s'\<lparr>matches := matches s' @ [x]\<rparr>))"
        using 3(1)[OF True refl, of "s'\<lparr>matches := matches s' @ [x]\<rparr>"] False 3(3)
        by simp
      with True False 3(3) show ?thesis by (simp add: Let_def)
    qed
  qed
qed simp_all

lemma find_matching_dirs_flow:
  "find_matching_dirs query w =
     (case map_flow matches (search_home query w) of
        Returned ms \<Rightarrow> (ms, w)
      | Raised e ms \<Rightarrow> (ms, w\<lparr>log := log w @ [''Error searching directories: '' @ e]\<rparr>)
      | Next ms \<Rightarrow> (ms, w))"
  by (simp add: find_matching_dirs_def split: flow.splits)

lemma search_home_as_empty:
  "map_flow matches (search_home query (w\<lparr>tree := as_empty (tree w)\<rparr>)) =
     map_flow matches (search_home query w)"
proof -
  let ?s = "\<lparr>matches = [], visited = []\<rparr>"
  have "map_flow matches (exec (lower query) (discovery (home w) (as_empty (tree w))) ?s) =
        map_flow matches (exec (lower query)
           (filter (\<lambda>e. \<not> is_visit e) (discovery (home w) (as_empty (tree w)))) ?s)"
    by (rule exec_without_visits) simp
  also have "\<dots> = map_flow matches (exec (lower query)
           (filter (\<lambda>e. \<not> is_visit e) (discovery (home w) (tree w))) ?s)"
    by (simp only: discovery_as_empty)
  also have "\<dots> = map_flow matches (exec (lower query) (discovery (home w) (tree w)) ?s)"
    by (rule exec_without_visits[symmetric]) simp
  finally show ?thesis by (simp add: search_home_def walk_exec)
qed

lemma find_matching_dirs_as_empty:
  "find_matching_dirs query (w\<lparr>tree := as_empty (tree w)\<rparr>) =
     (fst (find_matching_dirs query w),
      (snd (find_matching_dirs query w))\<lparr>tree := as_empty (tree w)\<rparr>)"
  unfolding find_matching_dirs_flow search_home_as_empty
  by (cases "map_flow matches (search_home query w)") simp_all

lemma exec_raised:
  "exec q evs s = Raised msg s' \<Longrightarrow> Fault msg \<in> set evs"
  by (induction q evs s rule: exec.induct) (auto simp: Let_def split: if_splits)

lemma crash_free_no_fault:
  "crash_free n \<Longrightarrow> Fault msg \<notin> set (discovery p n)"
  "crash_free_list es \<Longrightarrow> Fault msg \<notin> set (discovery_list p es)"
  by (induction p n and p es rule: discovery_discovery_list.induct) auto

lemma log_find_matching_dirs:
  "log (snd (find_matching_dirs query w)) = log w \<or>
   (\<exists>msg. Fault msg \<in> set (discovery (home w) (tree w)) \<and>
      log (snd (find_matching_dirs query w)) =
        log w @ [''Error searching directories: '' @ msg])"
proof (cases "search_home query w")
  case (Raised msg s)
  then have "Fault msg \<in> set (discovery (home w) (tree w))"
    by (simp add: search_home_def walk_exec exec_raised)
  moreover from Raised have "log (snd (find_matching_dirs query w)) =
        log w @ [''Error searching directories: '' @ msg]"
    by (simp add: find_matching_dirs_def)
  ultimately show ?thesis by blast
qed (simp_all add: find_matching_dirs_def)

text \<open>
  Claim C4 says that an error met while scanning a subtree is logged where it occurs
  and that the traversal then goes on with the siblings. Neither world does both: with
  a directory that cannot be listed, the search goes on and returns the match beside it,
  but nothing is logged; with a directory at which the walk raises, the error is
  logged, but the match in the sibling, which the search returns when that directory is
  empty, is not returned.
\<close>

theorem traversal_error_counterexample:
  "fst (find_matching_dirs ''app'' denied_world) = [Path ''/home/u/work/app1''] \<and>
   log (snd (find_matching_dirs ''app'' denied_world)) = [] \<and>
   fst (find_matching_dirs ''app'' crash_world) = [] \<and>
   log (snd (find_matching_dirs ''app'' crash_world)) =
     [''Error searching directories: maximum recursion depth exceeded''] \<and>
   fst (find_matching_dirs ''app''
          (crash_world\<lparr>tree := Dir [(''deep'', Dir []), (''work'', Dir [(''app1'', Dir [])])]\<rparr>)) =
     [Path ''/home/u/work/app1'']"
  by code_simp

text \<open>
  Claim C4, as the code has it. The result is always the first five matches among the
  directories discovered before the walk raises, if it does. A directory whose listing
  fails is skipped by the walk: the result and the log are those of the same tree with
  that directory empty, and without a directory at which the walk raises the log is left
  as it was. An exception that escapes the walk is caught around the whole loop: the
  matches collected so far are returned and one line is logged.
\<close>

theorem traversal_errors:
  "fst (find_matching_dirs query w) =
     take 5 (filter (hit (lower query)) (discovered (home w) (tree w))) \<and>
   find_matching_dirs query (w\<lparr>tree := as_empty (tree w)\<rparr>) =
     (fst (find_matching_dirs query w),
      (snd (find_matching_dirs query w))\<lparr>tree := as_empty (tree w)\<rparr>) \<and>
   (crash_free (tree w) \<longrightarrow> log (snd (find_matching_dirs query w)) = log w) \<and>
   (\<forall>msg s. search_home query w = Raised msg s \<longrightarrow>
      fst (find_matching_dirs query w) = matches s \<and>
      log (snd (find_matching_dirs query w)) =
        log w @ [''Error searching directories: '' @ msg])"
proof (intro conjI allI impI)
  show "fst (find_matching_dirs query w) =
     take 5 (filter (hit (lower query)) (discovered (home w) (tree w)))"
    by (rule result_take)
  show "find_matching_dirs query (w\<lparr>tree := as_empty (tree w)\<rparr>) =
     (fst (find_matching_dirs query w),
      (snd (find_matching_dirs query w))\<lparr>tree := as_empty (tree w)\<rparr>)"
    by (rule find_matching_dirs_as_empty)
next
  assume "crash_free (tree w)"
  then have "\<And>msg. Fault msg \<notin> set (discovery (home w) (tree w))"
    by (rule crash_free_no_fault)
  with log_find_matching_dirs[of query w]
  show "log (snd (find_matching_dirs query w)) = log w" by blast
next
  fix msg s assume r: "search_home query w = Raised msg s"
  then show "fst (find_matching_dirs query w) = matches s"
    by (simp add: find_matching_dirs_def)
  from r show "log (snd (find_matching_dirs query w)) =
        log w @ [''Error searching directories: '' @ msg]"
    by (simp add: find_matching_dirs_def)
qed

lemma denied_world_crash_free: "crash_free (tree denied_world)"
  by (simp add: denied_world_def)

lemma crash_world_raised:
  "search_home ''app'' crash_world =
     Raised ''maximum recursion depth exceeded''
       \<lparr>matches = [], visited = [Path ''/home/u'']\<rparr>"
  by code_simp

text \<open>
  The world with a directory that cannot be listed, and the world where the walk raises.
\<close>

theorem traversal_errors_witness:
  "crash_free (tree denied_world) \<and>
   log (snd (find_matching_dirs ''app'' denied_world)) = log denied_world \<and>
   search_home ''app'' crash_world =
     Raised ''maximum recursion depth exceeded''
       \<lparr>matches = [], visited = [Path ''/home/u'']\<rparr> \<and>
   log (snd (find_matching_dirs ''app'' crash_world)) =
     log crash_world @ [''Error searching directories: '' @ ''maximum recursion depth exceeded'']"
proof -
  from traversal_errors[of "''app''" denied_world] denied_world_crash_free
  have a: "log (snd (find_matching_dirs ''app'' denied_world)) = log denied_world"
    by blast
  from traversal_errors[of "''app''" crash_world] crash_world_raised
  have b: "log (snd (find_matching_dirs ''app'' crash_world)) =
     log crash_world @ [''Error searching directories: '' @ ''maximum recursion depth exceeded'']"
    by blast
  from denied_world_crash_free a crash_world_raised b show ?thesis by (intro conjI)
qed

end
